theory Spec2Isabelle
  imports Main "HOL-Library.FSet" "HOL-Library.AList"
begin

section \<open>The data model of \<open>esper.World\<close>\<close>

text \<open>
  Entities are plain Python integers. A component type (a Python class) is a token of type
  \<open>nat\<close>; a component instance carries its class, read by \<open>type(component_instance)\<close>
  in the source and by \<open>type_of\<close> here, together with an opaque payload.
\<close>

type_synonym entity = int
type_synonym ctype = nat

datatype component = Component (type_of: ctype) (payload: int)

datatype error = KeyError | IndexError

text \<open>
  Processor instances are Python objects that the world keeps by reference and mutates
  (\<open>priority\<close>, \<open>world\<close>): a reference is a \<open>pref\<close>, the objects live in a heap.
  \<open>ptype\<close> is the class of the object, compared by \<open>type(processor) == processor_type\<close>.
\<close>

type_synonym pref = nat

datatype world_ref = This_World

record processor =
  ptype :: nat
  priority :: int
  pworld :: "world_ref option"

type_synonym pheap = "pref \<Rightarrow> processor"

text \<open>
  The four attributes of a \<open>World\<close>: \<open>_processors\<close>, \<open>_next_entity_id\<close>,
  \<open>_components\<close> (component type to set of entities) and \<open>_entities\<close> (entity to
  dictionary from component type to instance). The inner dictionary is the only one the
  source iterates, so it is an association list in insertion order.
\<close>

record world =
  processors :: "pref list"
  next_entity_id :: int
  components :: "ctype \<rightharpoonup> entity fset"
  entities :: "entity \<rightharpoonup> (ctype \<times> component) list"

definition World :: world where
  "World = \<lparr>processors = [], next_entity_id = 0, components = Map.empty, entities = Map.empty\<rparr>"

section \<open>Entities and components\<close>

definition clear_database :: "world \<Rightarrow> world" where
  "clear_database w = w\<lparr>components := Map.empty, entities := Map.empty, next_entity_id := 0\<rparr>"

definition create_entity :: "world \<Rightarrow> entity \<times> world" where
  "create_entity w =
     (let w' = w\<lparr>next_entity_id := next_entity_id w + 1\<rparr> in (next_entity_id w', w'))"

text \<open>
  The loop of \<open>delete_entity\<close> over the component types of the entity. A missing key of
  \<open>_components\<close> raises \<open>KeyError\<close> out of the loop; what was removed before stays removed.
\<close>

fun delete_entity_loop ::
  "entity \<Rightarrow> ctype list \<Rightarrow> (ctype \<rightharpoonup> entity fset) \<Rightarrow> error option \<times> (ctype \<rightharpoonup> entity fset)" where
  "delete_entity_loop e [] comps = (None, comps)"
| "delete_entity_loop e (ct # cts) comps =
     (case comps ct of
        None \<Rightarrow> (Some KeyError, comps)
      | Some s \<Rightarrow>
          (let s' = s |-| {|e|} in
           if s' = {||} then delete_entity_loop e cts (comps(ct := None))
           else delete_entity_loop e cts (comps(ct \<mapsto> s'))))"

definition delete_entity :: "entity \<Rightarrow> world \<Rightarrow> (error + unit) \<times> world" where
  "delete_entity e w =
     (let keys = (case entities w e of None \<Rightarrow> [] | Some d \<Rightarrow> map fst d) in
      case delete_entity_loop e keys (components w) of
        (Some err, comps') \<Rightarrow> (Inl err, w\<lparr>components := comps'\<rparr>)
      | (None, comps') \<Rightarrow>
          (case entities w e of
             None \<Rightarrow> (Inr (), w\<lparr>components := comps'\<rparr>)
           | Some d \<Rightarrow> (Inr (), w\<lparr>components := comps', entities := (entities w)(e := None)\<rparr>)))"

definition component_for_entity :: "entity \<Rightarrow> ctype \<Rightarrow> world \<Rightarrow> component option" where
  "component_for_entity e ct w =
     (case entities w e of None \<Rightarrow> None | Some d \<Rightarrow> map_of d ct)"

definition add_component :: "entity \<Rightarrow> component \<Rightarrow> world \<Rightarrow> world" where
  "add_component e c w =
     (let ct = type_of c;
          s = (case components w ct of None \<Rightarrow> {||} | Some s \<Rightarrow> s);
          d = (case entities w e of None \<Rightarrow> [] | Some d \<Rightarrow> d)
      in w\<lparr>components := (components w)(ct \<mapsto> finsert e s),
            entities := (entities w)(e \<mapsto> AList.update ct c d)\<rparr>)"

definition delete_component :: "entity \<Rightarrow> ctype \<Rightarrow> world \<Rightarrow> world" where
  "delete_component e ct w =
     (let comps' =
            (case components w ct of
               None \<Rightarrow> components w
             | Some s \<Rightarrow>
                 (let s' = s |-| {|e|} in
                  if s' = {||} then (components w)(ct := None) else (components w)(ct \<mapsto> s')));
          ents' =
            (case entities w e of
               None \<Rightarrow> entities w
             | Some d \<Rightarrow>
                 (if map_of d ct = None then entities w
                  else (let d' = AList.delete ct d in
                        if d' = [] then (entities w)(e := None) else (entities w)(e \<mapsto> d'))))
      in w\<lparr>components := comps', entities := ents'\<rparr>)"

section \<open>Queries\<close>

text \<open>
  Both queries are generators. The model is the generator consumed to its end: the items
  it yielded, the exception that ended it if one did, and the world it leaves behind. A set
  is iterated in ascending order; Python fixes no order, and no statement below depends on it.
\<close>

type_synonym 'a generated = "'a list \<times> error option"

fun get_component_loop ::
  "(entity \<rightharpoonup> (ctype \<times> component) list) \<Rightarrow> ctype \<Rightarrow> entity list \<Rightarrow> (entity \<times> component) generated" where
  "get_component_loop entitydb ct [] = ([], None)"
| "get_component_loop entitydb ct (e # es) =
     (case entitydb e of
        None \<Rightarrow> ([], Some KeyError)
      | Some d \<Rightarrow>
          (case map_of d ct of
             None \<Rightarrow> ([], Some KeyError)
           | Some c \<Rightarrow>
               (case get_component_loop entitydb ct es of (ys, err) \<Rightarrow> ((e, c) # ys, err))))"

definition get_component :: "ctype \<Rightarrow> world \<Rightarrow> (entity \<times> component) generated" where
  "get_component ct w =
     get_component_loop (entities w) ct
       (case components w ct of None \<Rightarrow> [] | Some s \<Rightarrow> sorted_list_of_fset s)"

text \<open>
  \<open>entities &= self._components[component_type]\<close>: the local \<open>entities\<close> is the very set
  object stored under the first requested type \<open>t0\<close>, and \<open>&=\<close> on a Python set updates the
  object in place, so every step writes the narrowed set back under \<open>t0\<close>.
\<close>

fun intersect_loop ::
  "ctype \<Rightarrow> entity fset \<Rightarrow> ctype list \<Rightarrow> (ctype \<rightharpoonup> entity fset)
     \<Rightarrow> error option \<times> entity fset \<times> (ctype \<rightharpoonup> entity fset)" where
  "intersect_loop t0 ents [] comps = (None, ents, comps)"
| "intersect_loop t0 ents (ct # cts) comps =
     (case comps ct of
        None \<Rightarrow> (Some KeyError, ents, comps)
      | Some s \<Rightarrow> intersect_loop t0 (ents |\<inter>| s) cts (comps(t0 \<mapsto> ents |\<inter>| s)))"

fun get_components_loop ::
  "(entity \<rightharpoonup> (ctype \<times> component) list) \<Rightarrow> ctype list \<Rightarrow> entity list
     \<Rightarrow> (entity \<times> component list) generated" where
  "get_components_loop entitydb cts [] = ([], None)"
| "get_components_loop entitydb cts (e # es) =
     (case entitydb e of
        None \<Rightarrow> ([], Some KeyError)
      | Some d \<Rightarrow>
          (case get_components_loop entitydb cts es of
             (ys, err) \<Rightarrow> ((e, List.map_filter (map_of d) cts) # ys, err)))"

definition get_components ::
  "ctype list \<Rightarrow> world \<Rightarrow> (entity \<times> component list) generated \<times> world" where
  "get_components cts w =
     (case cts of
        [] \<Rightarrow> (([], Some IndexError), w)
      | t0 # rest \<Rightarrow>
          (case components w t0 of
             None \<Rightarrow> (([], Some KeyError), w)
           | Some s0 \<Rightarrow>
               (case intersect_loop t0 s0 rest (components w) of
                  (Some err, ents, comps') \<Rightarrow> (([], Some err), w\<lparr>components := comps'\<rparr>)
                | (None, ents, comps') \<Rightarrow>
                    (get_components_loop (entities w) cts (sorted_list_of_fset ents),
                     w\<lparr>components := comps'\<rparr>))))"

section \<open>Processors\<close>

text \<open>
  \<open>list.sort(key=...)\<close> is a stable sort, and so is \<open>sort_key\<close>; the key is the negated
  priority read from the heap at the time of the sort.
\<close>

definition add_processor :: "pref \<Rightarrow> int \<Rightarrow> pheap \<times> world \<Rightarrow> pheap \<times> world" where
  "add_processor p prio hw =
     (case hw of (h, w) \<Rightarrow>
        (let h' = h(p := (h p)\<lparr>priority := prio, pworld := Some This_World\<rparr>) in
         (h', w\<lparr>processors := sort_key (\<lambda>q. - priority (h' q)) (processors w @ [p])\<rparr>)))"

text \<open>
  \<open>remove_processor\<close> removes from the list it is iterating: the list iterator is an
  index \<open>i\<close> into the current list, and \<open>list.remove\<close> deletes the first occurrence.
\<close>

function remove_processor_loop :: "nat \<Rightarrow> nat \<Rightarrow> pheap \<Rightarrow> pref list \<Rightarrow> pheap \<times> pref list" where
  "remove_processor_loop t i h ps =
     (if i < length ps then
        (let p = ps ! i in
         if ptype (h p) = t
         then remove_processor_loop t (i + 1) (h(p := (h p)\<lparr>pworld := None\<rparr>)) (remove1 p ps)
         else remove_processor_loop t (i + 1) h ps)
      else (h, ps))"
  by pat_completeness auto
termination
proof (relation "measure (\<lambda>(t, i, h, ps). length ps - i)")
  show "wf (measure (\<lambda>(t, i, h, ps). length ps - i))" by simp
next
  fix t :: nat and i :: nat and h :: pheap and ps :: "pref list" and p
  assume "i < length ps" and "p = ps ! i"
  then have "p \<in> set ps" by simp
  then have "length (remove1 p ps) = length ps - 1" by (simp add: length_remove1)
  with \<open>i < length ps\<close>
  show "((t, i + 1, h(p := (h p)\<lparr>pworld := None\<rparr>), remove1 p ps), (t, i, h, ps))
          \<in> measure (\<lambda>(t, i, h, ps). length ps - i)"
    by simp
next
  fix t :: nat and i :: nat and h :: pheap and ps :: "pref list"
  assume "i < length ps"
  then show "((t, i + 1, h, ps), (t, i, h, ps)) \<in> measure (\<lambda>(t, i, h, ps). length ps - i)"
    by simp
qed

declare remove_processor_loop.simps [simp del]

definition remove_processor :: "nat \<Rightarrow> pheap \<times> world \<Rightarrow> pheap \<times> world" where
  "remove_processor t hw =
     (case hw of (h, w) \<Rightarrow>
        (case remove_processor_loop t 0 h (processors w) of
           (h', ps') \<Rightarrow> (h', w\<lparr>processors := ps'\<rparr>)))"

text \<open>
  \<open>process\<close> calls \<open>processor.process()\<close> on each element of the list in turn. The
  callbacks are code of the caller; the model returns the sequence of calls made.
\<close>

definition process :: "pheap \<times> world \<Rightarrow> pref list" where
  "process hw = (case hw of (h, w) \<Rightarrow> processors w)"

section \<open>Sequences of calls\<close>

text \<open>
  A call of the public interface, and a sequence of calls run on one world. \<open>run\<close>
  collects the identifiers \<open>create_entity\<close> returned, in order. A query stands for the
  generator consumed to its end; an exception leaves the world as it was when raised.
\<close>

datatype op =
    Create_Entity
  | Delete_Entity entity
  | Add_Component entity component
  | Delete_Component entity ctype
  | Component_For_Entity entity ctype
  | Get_Component ctype
  | Get_Components "ctype list"
  | Clear_Database
  | Add_Processor pref int
  | Remove_Processor nat
  | Process

fun step :: "op \<Rightarrow> pheap \<times> world \<Rightarrow> pheap \<times> world" where
  "step Create_Entity (h, w) = (h, snd (create_entity w))"
| "step (Delete_Entity e) (h, w) = (h, snd (delete_entity e w))"
| "step (Add_Component e c) (h, w) = (h, add_component e c w)"
| "step (Delete_Component e ct) (h, w) = (h, delete_component e ct w)"
| "step (Component_For_Entity e ct) (h, w) = (h, w)"
| "step (Get_Component ct) (h, w) = (h, w)"
| "step (Get_Components cts) (h, w) = (h, snd (get_components cts w))"
| "step Clear_Database (h, w) = (h, clear_database w)"
| "step (Add_Processor p prio) (h, w) = add_processor p prio (h, w)"
| "step (Remove_Processor t) (h, w) = remove_processor t (h, w)"
| "step Process (h, w) = (h, w)"

fun created :: "op \<Rightarrow> world \<Rightarrow> entity list" where
  "created Create_Entity w = [fst (create_entity w)]"
| "created _ w = []"

fun run :: "op list \<Rightarrow> pheap \<times> world \<Rightarrow> entity list \<times> (pheap \<times> world)" where
  "run [] hw = ([], hw)"
| "run (x # xs) hw = (case run xs (step x hw) of (ids, hw') \<Rightarrow> (created x (snd hw) @ ids, hw'))"

definition world_after :: "op list \<Rightarrow> pheap \<Rightarrow> world" where
  "world_after ops h0 = snd (snd (run ops (h0, World)))"

definition heap0 :: pheap where
  "heap0 = (\<lambda>p. \<lparr>ptype = p, priority = 0, pworld = None\<rparr>)"

section \<open>The invariants of the two relations\<close>

text \<open>
  \<open>type_entities w T\<close> is the set of entities stored under \<open>T\<close>, empty for a type that
  is not a key (\<open>self._components.get(T, [])\<close>).
\<close>

definition type_entities :: "world \<Rightarrow> ctype \<Rightarrow> entity fset" where
  "type_entities w T = (case components w T of None \<Rightarrow> {||} | Some s \<Rightarrow> s)"

definition I1 :: "world \<Rightarrow> bool" where
  "I1 w \<longleftrightarrow> (\<forall>e T. e |\<in>| type_entities w T \<longleftrightarrow> component_for_entity e T w \<noteq> None)"

definition I2 :: "world \<Rightarrow> bool" where
  "I2 w \<longleftrightarrow> (\<forall>T. components w T \<noteq> Some {||}) \<and> (\<forall>e. entities w e \<noteq> Some [])"

text \<open>
  What the query path relies on: every entity stored under a type has an entry for that
  type in its own dictionary (the direction of \<open>I1\<close> that no call ever breaks), and a
  component is filed under its own type.
\<close>

definition indexed :: "world \<Rightarrow> bool" where
  "indexed w \<longleftrightarrow>
     (\<forall>T e. e |\<in>| type_entities w T \<longrightarrow> component_for_entity e T w \<noteq> None)"

definition typed :: "world \<Rightarrow> bool" where
  "typed w \<longleftrightarrow> (\<forall>e T c. component_for_entity e T w = Some c \<longrightarrow> type_of c = T)"

text \<open>The set stored under a key of \<open>_components\<close>, empty for a missing key.\<close>

definition set_at :: "(ctype \<rightharpoonup> entity fset) \<Rightarrow> ctype \<Rightarrow> entity fset" where
  "set_at comps T = (case comps T of None \<Rightarrow> {||} | Some s \<Rightarrow> s)"

text \<open>
  A Python dictionary holds a key once: the keys of an inner dictionary are distinct.
  \<open>consistent\<close> is \<open>I1\<close> and \<open>I2\<close> on such a world; \<open>narrowing\<close> marks the one call,
  \<open>get_components\<close>, that does not preserve it.
\<close>

definition keys_distinct :: "world \<Rightarrow> bool" where
  "keys_distinct w \<longleftrightarrow> (\<forall>e d. entities w e = Some d \<longrightarrow> distinct (map fst d))"

definition consistent :: "world \<Rightarrow> bool" where
  "consistent w \<longleftrightarrow> I1 w \<and> I2 w \<and> keys_distinct w"

fun narrowing :: "op \<Rightarrow> bool" where
  "narrowing (Get_Components cts) = True"
| "narrowing _ = False"

text \<open>A sequence of \<open>add_processor\<close> calls, each an instance and its priority.\<close>

definition add_processors :: "(pref \<times> int) list \<Rightarrow> pheap \<times> world \<Rightarrow> pheap \<times> world" where
  "add_processors calls hw = foldl (\<lambda>s (p, prio). add_processor p prio s) hw calls"

section \<open>Evaluation helpers\<close>

lemma sorted_list_of_fset_empty: "sorted_list_of_fset {||} = []"
  by (simp add: sorted_list_of_fset.rep_eq)

lemma sorted_list_of_fset_finsert:
  "sorted_list_of_fset (finsert x A) = insort x (sorted_list_of_fset (A |-| {|x|}))"
  by (simp add: sorted_list_of_fset.rep_eq sorted_list_of_set_insert_remove)

lemma distinct_sorted_list_of_fset: "distinct (sorted_list_of_fset S)"
  by (simp add: sorted_list_of_fset.rep_eq)

lemmas fset_iter = sorted_list_of_fset_empty sorted_list_of_fset_finsert

lemmas world_ops =
  World_def create_entity_def clear_database_def add_component_def delete_component_def
  delete_entity_def get_components_def get_component_def world_after_def

lemma fst_run_Cons: "fst (run (x # xs) hw) = created x (snd hw) @ fst (run xs (step x hw))"
  by (simp add: case_prod_beta)

lemma snd_run_Cons: "snd (run (x # xs) hw) = snd (run xs (step x hw))"
  by (simp add: case_prod_beta)

section \<open>Unknown component types in a query\<close>

text \<open>
  Claim C3: a query over a list of types that contains a type unknown to the world yields
  an empty sequence and raises nothing, as \<open>get_component\<close> does for an unknown type.
  The code does not do so: \<open>get_components\<close> indexes \<open>self._components\<close> with the type and
  raises \<open>KeyError\<close>, whether the unknown type comes first or later, while its sibling
  \<open>get_component\<close> reads the same dictionary with a default and yields nothing. World: one
  entity 1 holding a component of type 0; type 1 is unknown.
\<close>

theorem get_components_unknown_type_raises:
  "get_components [0, 1] (add_component 1 (Component 0 7) World)
     = (([], Some KeyError), add_component 1 (Component 0 7) World)
   \<and> get_components [1] (add_component 1 (Component 0 7) World)
     = (([], Some KeyError), add_component 1 (Component 0 7) World)
   \<and> get_component 1 (add_component 1 (Component 0 7) World) = ([], None)"
  by (simp add: world_ops)

section \<open>Deleting an entity that was never stored\<close>

text \<open>
  Claim C5: \<open>delete_entity\<close> signals "not found" for an entity with no entry in
  \<open>entity_components\<close>. The code catches the \<open>KeyError\<close> of the dictionary deletion and
  returns normally, on the very calls of \<open>test_delete_entity\<close>, which expects
  \<open>KeyError\<close> from \<open>delete_entity(999)\<close>.
\<close>

theorem delete_unknown_entity_is_silent:
  "fst (delete_entity 999
     (world_after [Create_Entity, Add_Component 1 (Component 2 0),
                   Create_Entity, Add_Component 2 (Component 3 0),
                   Create_Entity, Add_Component 3 (Component 4 0),
                   Delete_Entity 3] heap0)) = Inr ()
   \<and> fst (delete_entity 999 World) = Inr ()"
  by (simp add: world_ops Let_def)

section \<open>Misuse: no component types, no such processor\<close>

lemma remove_processor_loop_no_match:
  "\<forall>p\<in>set ps. ptype (h p) \<noteq> t \<Longrightarrow> remove_processor_loop t i h ps = (h, ps)"
proof (induction "length ps - i" arbitrary: i)
  case 0
  then show ?case by (subst remove_processor_loop.simps) simp
next
  case (Suc n)
  then have "i < length ps" by simp
  moreover from Suc have "n = length ps - (i + 1)" by simp
  ultimately show ?case
    using Suc.hyps(1) Suc.prems
    by (subst remove_processor_loop.simps) (simp add: Let_def)
qed

theorem get_components_no_types_raises:
  "snd (fst (get_components [] World)) = Some IndexError"
  by (simp add: get_components_def)

text \<open>
  Claim C6, amended: \<open>get_components\<close> with no component type raises \<open>IndexError\<close>
  (from \<open>component_types[0]\<close>) when the generator is first advanced, yields nothing and
  leaves the world as it was; \<open>remove_processor\<close> with a type that no registered processor
  has changes neither the list nor any processor, and raises nothing.
\<close>

theorem misuse_zero_types_unknown_processor:
  "get_components [] w = (([], Some IndexError), w)
   \<and> ((\<forall>p\<in>set (processors w). ptype (h p) \<noteq> t) \<longrightarrow> remove_processor t (h, w) = (h, w))"
  by (simp add: get_components_def remove_processor_def remove_processor_loop_no_match)

theorem misuse_zero_types_unknown_processor_witness:
  "get_components [] (snd (add_processor 0 0 (heap0, World)))
     = (([], Some IndexError), snd (add_processor 0 0 (heap0, World)))
   \<and> remove_processor 1 (add_processor 0 0 (heap0, World)) = add_processor 0 0 (heap0, World)
   \<and> processors (snd (add_processor 0 0 (heap0, World))) = [0]"
  using misuse_zero_types_unknown_processor
    [of "snd (add_processor 0 0 (heap0, World))" "fst (add_processor 0 0 (heap0, World))" 1]
  by (simp add: add_processor_def heap0_def World_def)

section \<open>Entity identifiers\<close>

lemma delete_entity_next_id: "next_entity_id (snd (delete_entity e w)) = next_entity_id w"
  by (simp add: delete_entity_def Let_def split: prod.splits option.splits)

lemma get_components_next_id: "next_entity_id (snd (get_components cts w)) = next_entity_id w"
  by (simp add: get_components_def split: list.splits prod.splits option.splits)

lemma remove_processor_next_id:
  "next_entity_id (snd (remove_processor t (h, w))) = next_entity_id w"
  by (simp add: remove_processor_def split: prod.splits)

lemma step_next_id:
  "x \<noteq> Clear_Database \<Longrightarrow>
   next_entity_id (snd (step x (h, w))) =
     (if x = Create_Entity then next_entity_id w + 1 else next_entity_id w)"
  by (cases x)
     (simp_all add: create_entity_def add_component_def delete_component_def Let_def
        add_processor_def delete_entity_next_id get_components_next_id remove_processor_next_id)

lemma step_next_id_nonneg:
  "0 \<le> next_entity_id w \<Longrightarrow> 0 \<le> next_entity_id (snd (step x (h, w)))"
  by (cases "x = Clear_Database") (simp_all add: step_next_id clear_database_def)

lemma run_ids_above:
  "Clear_Database \<notin> set ops \<Longrightarrow>
   sorted_wrt (<) (fst (run ops (h, w))) \<and> (\<forall>i\<in>set (fst (run ops (h, w))). next_entity_id w < i)"
proof (induction ops arbitrary: h w)
  case Nil
  then show ?case by simp
next
  case (Cons x xs)
  obtain h' w' where s: "step x (h, w) = (h', w')" by (cases "step x (h, w)")
  from Cons.prems have x: "x \<noteq> Clear_Database" and xs: "Clear_Database \<notin> set xs" by auto
  from step_next_id[OF x, of h w] s
  have n: "next_entity_id w' = (if x = Create_Entity then next_entity_id w + 1 else next_entity_id w)"
    by simp
  from Cons.IH[OF xs, of h' w']
  have ih: "sorted_wrt (<) (fst (run xs (h', w')))"
    "\<forall>i\<in>set (fst (run xs (h', w'))). next_entity_id w' < i" by auto
  show ?case
  proof (cases "x = Create_Entity")
    case True
    then have "created x w = [next_entity_id w + 1]" by (simp add: create_entity_def)
    with s n ih True show ?thesis
      by (fastforce simp add: fst_run_Cons simp del: run.simps)
  next
    case False
    then have "created x w = []" by (cases x) simp_all
    with s n ih False show ?thesis by (simp add: fst_run_Cons del: run.simps)
  qed
qed

lemma run_next_id_nonneg:
  "0 \<le> next_entity_id w \<Longrightarrow> 0 \<le> next_entity_id (snd (snd (run ops (h, w))))"
proof (induction ops arbitrary: h w)
  case Nil
  then show ?case by simp
next
  case (Cons x xs)
  obtain h' w' where s: "step x (h, w) = (h', w')" by (cases "step x (h, w)")
  with step_next_id_nonneg[OF Cons.prems, of x h] have "0 \<le> next_entity_id w'" by simp
  from Cons.IH[OF this, of h'] s show ?case by (simp add: snd_run_Cons del: run.simps)
qed

theorem ids_reissued_after_clear_database:
  "fst (run [Create_Entity, Clear_Database, Create_Entity] (heap0, World)) = [1, 1]"
  by (simp add: create_entity_def clear_database_def World_def)

text \<open>
  Claim C7, amended: on one world, after any sequence of calls \<open>before\<close>, the identifiers
  that \<open>create_entity\<close> returns during a sequence of calls with no \<open>clear_database\<close> in it
  are strictly increasing, hence never repeated, and all above 0. (\<open>clear_database\<close> sets
  the counter back to 0, so identifiers issued before it are issued again after it.)
\<close>

theorem ids_increase_between_clears:
  assumes "Clear_Database \<notin> set ops"
  shows "sorted_wrt (<) (fst (run ops (snd (run before (h0, World)))))
         \<and> (\<forall>i\<in>set (fst (run ops (snd (run before (h0, World))))). 0 < i)"
proof -
  obtain h w where s: "snd (run before (h0, World)) = (h, w)"
    by (cases "snd (run before (h0, World))")
  have "0 \<le> next_entity_id (snd (snd (run before (h0, World))))"
    by (rule run_next_id_nonneg) (simp add: World_def)
  with s have "0 \<le> next_entity_id w" by simp
  with run_ids_above[OF assms, of h w] s show ?thesis by fastforce
qed

theorem ids_increase_between_clears_witness:
  "fst (run [Create_Entity, Add_Component 1 (Component 0 0), Delete_Entity 1, Create_Entity]
          (snd (run [Create_Entity, Clear_Database] (heap0, World)))) = [1, 2]
   \<and> sorted_wrt (<) [1, 2::int]"
  using ids_increase_between_clears
    [of "[Create_Entity, Add_Component 1 (Component 0 0), Delete_Entity 1, Create_Entity]"
        "[Create_Entity, Clear_Database]" heap0]
  by (simp add: world_ops Let_def)

section \<open>Resetting the database\<close>

text \<open>
  Claim C10: for every world, \<open>clear_database\<close> empties \<open>entity_components\<close> and
  \<open>type_entities\<close> and resets the counter to that of a new world, so that the next
  \<open>create_entity\<close> returns 1, the first identifier of a new world; the processor list, and
  so what \<open>process\<close> calls, is unchanged. (The processors themselves are not an argument
  of \<open>clear_database\<close>.)
\<close>

theorem clear_database_resets:
  "components (clear_database w) = Map.empty \<and> entities (clear_database w) = Map.empty
   \<and> next_entity_id (clear_database w) = next_entity_id World
   \<and> fst (create_entity (clear_database w)) = 1
   \<and> fst (create_entity (clear_database w)) = fst (create_entity World)
   \<and> processors (clear_database w) = processors w
   \<and> process (h, clear_database w) = process (h, w)"
  by (simp add: clear_database_def create_entity_def World_def process_def)

section \<open>The stored sets and the component calls\<close>

lemma type_entities_set_at: "type_entities w T = set_at (components w) T"
  by (simp add: type_entities_def set_at_def)

lemma set_at_None [simp]: "comps T = None \<Longrightarrow> set_at comps T = {||}"
  by (simp add: set_at_def)

lemma set_at_Some [simp]: "comps T = Some s \<Longrightarrow> set_at comps T = s"
  by (simp add: set_at_def)

lemma set_at_upd [simp]: "set_at (comps(T \<mapsto> s)) T' = (if T' = T then s else set_at comps T')"
  by (simp add: set_at_def)

lemma set_at_del [simp]: "set_at (comps(T := None)) T' = (if T' = T then {||} else set_at comps T')"
  by (simp add: set_at_def)

subsection \<open>The four characteristic equations of the component calls\<close>

lemma cfe_add_component:
  "component_for_entity e T (add_component e' c w) =
     (if e = e' \<and> T = type_of c then Some c else component_for_entity e T w)"
  by (simp add: component_for_entity_def add_component_def Let_def update_conv'
      split: option.splits)

lemma te_add_component:
  "type_entities (add_component e' c w) T =
     (if T = type_of c then finsert e' (type_entities w T) else type_entities w T)"
  by (simp add: type_entities_def add_component_def Let_def split: option.splits)

lemma cfe_delete_component:
  "component_for_entity e T (delete_component e' T' w) =
     (if e = e' \<and> T = T' then None else component_for_entity e T w)"
proof (cases "entities w e'")
  case None
  then show ?thesis by (simp add: component_for_entity_def delete_component_def Let_def)
next
  case (Some d)
  show ?thesis
  proof (cases "map_of d T' = None")
    case True
    with Some show ?thesis
      by (auto simp add: component_for_entity_def delete_component_def Let_def)
  next
    case False
    have "map_of (AList.delete T' d) T = (if T = T' then None else map_of d T)"
      by (simp add: delete_conv')
    moreover have "AList.delete T' d = [] \<Longrightarrow> map_of d T = (if T = T' then map_of d T else None)"
      using delete_conv'[of T' d] by (metis fun_upd_apply map_of.simps(1))
    ultimately show ?thesis using Some False
      by (auto simp add: component_for_entity_def delete_component_def Let_def)
  qed
qed

lemma te_delete_component:
  "type_entities (delete_component e' T' w) T =
     (if T = T' then type_entities w T |-| {|e'|} else type_entities w T)"
  by (auto simp add: type_entities_def delete_component_def Let_def split: option.splits)

subsection \<open>The loops\<close>

lemma intersect_loop_shrinks:
  "comps t0 = Some ents \<Longrightarrow> intersect_loop t0 ents cts comps = (err, ents', comps') \<Longrightarrow>
   comps' t0 = Some ents' \<and> ents' |\<subseteq>| ents \<and> (\<forall>T. T \<noteq> t0 \<longrightarrow> comps' T = comps T)"
proof (induction cts arbitrary: ents comps)
  case Nil
  then show ?case by simp
next
  case (Cons ct cts)
  show ?case
  proof (cases "comps ct")
    case None
    with Cons.prems show ?thesis by simp
  next
    case (Some s)
    with Cons.prems
    have run: "intersect_loop t0 (ents |\<inter>| s) cts (comps(t0 \<mapsto> ents |\<inter>| s)) = (err, ents', comps')"
      by simp
    have "(comps(t0 \<mapsto> ents |\<inter>| s)) t0 = Some (ents |\<inter>| s)" by simp
    from Cons.IH[OF this run] show ?thesis by auto
  qed
qed

lemma intersect_loop_ok:
  "comps t0 = Some ents \<Longrightarrow> \<forall>T\<in>set cts. comps T \<noteq> None \<Longrightarrow>
   \<exists>I. intersect_loop t0 ents cts comps = (None, I, comps(t0 \<mapsto> I))
       \<and> (\<forall>x. x |\<in>| I \<longleftrightarrow> x |\<in>| ents \<and> (\<forall>T\<in>set cts. x |\<in>| set_at comps T))"
proof (induction cts arbitrary: ents comps)
  case Nil
  then have "comps(t0 \<mapsto> ents) = comps" by (simp add: fun_upd_idem)
  then have "intersect_loop t0 ents [] comps = (None, ents, comps(t0 \<mapsto> ents))"
    by (simp del: fun_upd_apply)
  moreover have "\<forall>x. x |\<in>| ents \<longleftrightarrow> x |\<in>| ents \<and> (\<forall>T\<in>set []. x |\<in>| set_at comps T)"
    by simp
  ultimately show ?case by (rule_tac x = ents in exI) (rule conjI)
next
  case (Cons ct cts)
  from Cons.prems obtain s where s: "comps ct = Some s" by auto
  let ?c = "comps(t0 \<mapsto> ents |\<inter>| s)"
  have a: "?c t0 = Some (ents |\<inter>| s)" by simp
  have b: "\<forall>T\<in>set cts. ?c T \<noteq> None" using Cons.prems by simp
  from Cons.IH[OF a b] obtain I where
    I: "intersect_loop t0 (ents |\<inter>| s) cts ?c = (None, I, ?c(t0 \<mapsto> I))"
    and mem: "\<And>x. x |\<in>| I \<longleftrightarrow> x |\<in>| ents |\<inter>| s \<and> (\<forall>T\<in>set cts. x |\<in>| set_at ?c T)"
    by blast
  have run: "intersect_loop t0 ents (ct # cts) comps = (None, I, comps(t0 \<mapsto> I))"
    using I s by simp
  have "\<And>x. x |\<in>| I \<longleftrightarrow> x |\<in>| ents \<and> (\<forall>T\<in>set (ct # cts). x |\<in>| set_at comps T)"
  proof -
    fix x
    have "x |\<in>| ents \<Longrightarrow> x |\<in>| s \<Longrightarrow> T \<in> set cts \<Longrightarrow>
          x |\<in>| set_at ?c T \<longleftrightarrow> x |\<in>| set_at comps T" for T
      using Cons.prems(1) by (cases "T = t0") simp_all
    with mem[of x] s show "x |\<in>| I \<longleftrightarrow> x |\<in>| ents \<and> (\<forall>T\<in>set (ct # cts). x |\<in>| set_at comps T)"
      by auto
  qed
  with run show ?case by blast
qed

lemma get_components_loop_ok:
  "\<forall>e\<in>set es. \<exists>d. entitydb e = Some d \<and> (\<forall>T\<in>set cts. map_of d T \<noteq> None) \<Longrightarrow>
   get_components_loop entitydb cts es =
     (map (\<lambda>e. (e, map (\<lambda>T. the (map_of (the (entitydb e)) T)) cts)) es, None)"
proof (induction es)
  case Nil
  then show ?case by simp
next
  case (Cons e es)
  then obtain d where d: "entitydb e = Some d" "\<forall>T\<in>set cts. map_of d T \<noteq> None" by auto
  then have "filter (\<lambda>T. map_of d T \<noteq> None) cts = cts" by (simp add: filter_id_conv)
  then have "List.map_filter (map_of d) cts = map (\<lambda>T. the (map_of d T)) cts"
    by (simp add: List.map_filter_def comp_def)
  with Cons d show ?case by simp
qed

section \<open>What every call preserves\<close>

lemma delete_entity_loop_sets:
  "delete_entity_loop e keys comps = (err, comps') \<Longrightarrow>
   (\<forall>T. T \<notin> set keys \<longrightarrow> comps' T = comps T)
   \<and> (\<forall>T. set_at comps' T |\<subseteq>| set_at comps T)
   \<and> (err = None \<longrightarrow> (\<forall>T\<in>set keys. e |\<notin>| set_at comps' T))"
proof (induction keys arbitrary: comps)
  case Nil
  then show ?case by simp
next
  case (Cons ct cts)
  show ?case
  proof (cases "comps ct")
    case None
    with Cons.prems show ?thesis by auto
  next
    case (Some s)
    define c1 where "c1 = (if s |-| {|e|} = {||} then comps(ct := None) else comps(ct \<mapsto> s |-| {|e|}))"
    from Cons.prems Some have run: "delete_entity_loop e cts c1 = (err, comps')"
      by (simp add: c1_def Let_def split: if_splits)
    have c1_other: "\<And>T. T \<noteq> ct \<Longrightarrow> c1 T = comps T" by (simp add: c1_def)
    have c1_ct: "set_at c1 ct = s |-| {|e|}" by (auto simp add: c1_def)
    have c1_sub: "\<And>T. set_at c1 T |\<subseteq>| set_at comps T"
    proof -
      fix T show "set_at c1 T |\<subseteq>| set_at comps T"
        using Some c1_ct by (cases "T = ct") (auto simp add: c1_other set_at_def)
    qed
    from Cons.IH[OF run] have
      ih1: "\<And>T. T \<notin> set cts \<Longrightarrow> comps' T = c1 T" and
      ih2: "\<And>T. set_at comps' T |\<subseteq>| set_at c1 T" and
      ih3: "err = None \<Longrightarrow> (\<forall>T\<in>set cts. e |\<notin>| set_at comps' T)"
      by auto
    have a: "\<forall>T. T \<notin> set (ct # cts) \<longrightarrow> comps' T = comps T"
      using ih1 c1_other by simp
    have b: "\<forall>T. set_at comps' T |\<subseteq>| set_at comps T"
      using ih2 c1_sub by (meson order_trans)
    have "e |\<notin>| set_at comps' ct" using ih2[of ct] c1_ct by auto
    with ih3 have c: "err = None \<longrightarrow> (\<forall>T\<in>set (ct # cts). e |\<notin>| set_at comps' T)" by simp
    from a b c show ?thesis by blast
  qed
qed

lemma indexed_narrow:
  "indexed w \<Longrightarrow> \<forall>T. set_at comps' T |\<subseteq>| set_at (components w) T \<Longrightarrow>
   indexed (w\<lparr>components := comps'\<rparr>)"
  unfolding indexed_def type_entities_set_at component_for_entity_def
  by (fastforce dest: fsubsetD)

lemma typed_components [simp]: "typed (w\<lparr>components := comps'\<rparr>) = typed w"
  by (simp add: typed_def component_for_entity_def)

lemma indexed_processors [simp]: "indexed (w\<lparr>processors := ps\<rparr>) = indexed w"
  by (simp add: indexed_def type_entities_def component_for_entity_def)

lemma typed_processors [simp]: "typed (w\<lparr>processors := ps\<rparr>) = typed w"
  by (simp add: typed_def component_for_entity_def)

lemma indexed_next_id [simp]: "indexed (w\<lparr>next_entity_id := n\<rparr>) = indexed w"
  by (simp add: indexed_def type_entities_def component_for_entity_def)

lemma typed_next_id [simp]: "typed (w\<lparr>next_entity_id := n\<rparr>) = typed w"
  by (simp add: typed_def component_for_entity_def)

lemma delete_entity_cases:
  obtains (raised) err comps' where
      "delete_entity e w = (Inl err, w\<lparr>components := comps'\<rparr>)"
      "\<forall>T. set_at comps' T |\<subseteq>| set_at (components w) T"
    | (absent) comps' where
      "delete_entity e w = (Inr (), w\<lparr>components := comps'\<rparr>)"
      "entities w e = None"
      "\<forall>T. set_at comps' T |\<subseteq>| set_at (components w) T"
    | (deleted) comps' d where
      "delete_entity e w = (Inr (), w\<lparr>components := comps', entities := (entities w)(e := None)\<rparr>)"
      "entities w e = Some d"
      "\<forall>T. set_at comps' T |\<subseteq>| set_at (components w) T"
      "\<forall>T. T \<notin> fst ` set d \<longrightarrow> comps' T = components w T"
      "\<forall>T\<in>fst ` set d. e |\<notin>| set_at comps' T"
proof -
  define keys where "keys = (case entities w e of None \<Rightarrow> [] | Some d \<Rightarrow> map fst d)"
  obtain err comps' where L: "delete_entity_loop e keys (components w) = (err, comps')"
    by (cases "delete_entity_loop e keys (components w)")
  note S = delete_entity_loop_sets[OF L]
  show thesis
  proof (cases err)
    case (Some x)
    with L have "delete_entity e w = (Inl x, w\<lparr>components := comps'\<rparr>)"
      unfolding delete_entity_def keys_def[symmetric] by simp
    with S show thesis by (intro raised) auto
  next
    case None
    show thesis
    proof (cases "entities w e")
      case n: None
      then have "keys = []" by (simp add: keys_def)
      with L have "comps' = components w" by simp
      with n have "delete_entity e w = (Inr (), w\<lparr>components := comps'\<rparr>)"
        by (simp add: delete_entity_def)
      with S n show thesis by (intro absent) auto
    next
      case (Some d)
      then have k: "keys = map fst d" by (simp add: keys_def)
      with L None Some have
        "delete_entity e w = (Inr (), w\<lparr>components := comps', entities := (entities w)(e := None)\<rparr>)"
        by (simp add: delete_entity_def)
      moreover from k have "set keys = fst ` set d" by simp
      ultimately show thesis using S Some None by (intro deleted) auto
    qed
  qed
qed

lemma indexed_delete_entity: "indexed w \<Longrightarrow> indexed (snd (delete_entity e w))"
proof (cases e w rule: delete_entity_cases)
  case (raised err comps')
  assume "indexed w"
  with raised show ?thesis by (simp add: indexed_narrow)
next
  case (absent comps')
  assume "indexed w"
  with absent show ?thesis by (simp add: indexed_narrow)
next
  case (deleted comps' d)
  assume i: "indexed w"
  have "indexed (w\<lparr>components := comps', entities := (entities w)(e := None)\<rparr>)"
    unfolding indexed_def type_entities_set_at component_for_entity_def
  proof (intro allI impI)
    fix T e'
    assume m: "e' |\<in>| set_at (components (w\<lparr>components := comps', entities := (entities w)(e := None)\<rparr>)) T"
    then have m': "e' |\<in>| set_at comps' T" by simp
    with deleted(3) have m0: "e' |\<in>| set_at (components w) T" by auto
    with i have c: "component_for_entity e' T w \<noteq> None"
      by (simp add: indexed_def type_entities_set_at)
    have "e' \<noteq> e"
    proof
      assume "e' = e"
      with c deleted(2) have "map_of d T \<noteq> None" by (simp add: component_for_entity_def)
      then have "T \<in> fst ` set d" by (simp add: map_of_eq_None_iff)
      with deleted(5) m' \<open>e' = e\<close> show False by auto
    qed
    with c show "(case entities (w\<lparr>components := comps', entities := (entities w)(e := None)\<rparr>) e' of
                    None \<Rightarrow> None | Some d \<Rightarrow> map_of d T) \<noteq> None"
      by (simp add: component_for_entity_def)
  qed
  with deleted show ?thesis by simp
qed

lemma typed_delete_entity: "typed w \<Longrightarrow> typed (snd (delete_entity e w))"
proof (cases e w rule: delete_entity_cases)
  case (raised err comps')
  assume "typed w" with raised show ?thesis by simp
next
  case (absent comps')
  assume "typed w" with absent show ?thesis by simp
next
  case (deleted comps' d)
  assume "typed w"
  then have "typed (w\<lparr>components := comps', entities := (entities w)(e := None)\<rparr>)"
    unfolding typed_def component_for_entity_def by (auto split: if_splits)
  with deleted show ?thesis by simp
qed

lemma get_components_world:
  "\<exists>comps'. snd (get_components cts w) = w\<lparr>components := comps'\<rparr>
           \<and> (\<forall>T. set_at comps' T |\<subseteq>| set_at (components w) T)"
proof (cases cts)
  case Nil
  then have "snd (get_components cts w) = w\<lparr>components := components w\<rparr>"
    by (simp add: get_components_def)
  then show ?thesis by blast
next
  case (Cons t0 rest)
  show ?thesis
  proof (cases "components w t0")
    case None
    with Cons have "snd (get_components cts w) = w\<lparr>components := components w\<rparr>"
      by (simp add: get_components_def)
    then show ?thesis by blast
  next
    case (Some s0)
    obtain err ents comps' where
      L: "intersect_loop t0 s0 rest (components w) = (err, ents, comps')"
      by (cases "intersect_loop t0 s0 rest (components w)")
    from intersect_loop_shrinks[OF Some L]
    have sh: "comps' t0 = Some ents" "ents |\<subseteq>| s0" "\<forall>T. T \<noteq> t0 \<longrightarrow> comps' T = components w T"
      by auto
    have sub: "\<forall>T. set_at comps' T |\<subseteq>| set_at (components w) T"
    proof
      fix T show "set_at comps' T |\<subseteq>| set_at (components w) T"
        using sh Some by (cases "T = t0") (simp_all add: set_at_def)
    qed
    from Cons Some L have "snd (get_components cts w) = w\<lparr>components := comps'\<rparr>"
      by (cases err) (simp_all add: get_components_def)
    with sub show ?thesis by blast
  qed
qed

lemma indexed_get_components: "indexed w \<Longrightarrow> indexed (snd (get_components cts w))"
  using get_components_world[of cts w] by (auto simp add: indexed_narrow)

lemma typed_get_components: "typed w \<Longrightarrow> typed (snd (get_components cts w))"
  using get_components_world[of cts w] by auto

lemma indexed_add_component: "indexed w \<Longrightarrow> indexed (add_component e c w)"
  by (auto simp add: indexed_def cfe_add_component te_add_component split: if_splits)

lemma typed_add_component: "typed w \<Longrightarrow> typed (add_component e c w)"
  by (auto simp add: typed_def cfe_add_component split: if_splits)

lemma indexed_delete_component: "indexed w \<Longrightarrow> indexed (delete_component e T w)"
  by (auto simp add: indexed_def cfe_delete_component te_delete_component split: if_splits)

lemma typed_delete_component: "typed w \<Longrightarrow> typed (delete_component e T w)"
  by (auto simp add: typed_def cfe_delete_component split: if_splits)

lemma indexed_typed_World: "indexed World \<and> typed World"
  by (simp add: indexed_def typed_def World_def type_entities_def component_for_entity_def)

lemma indexed_typed_clear: "indexed (clear_database w) \<and> typed (clear_database w)"
  by (simp add: indexed_def typed_def clear_database_def type_entities_def component_for_entity_def)

lemma remove_processor_world:
  "snd (remove_processor t (h, w)) =
     w\<lparr>processors := processors (snd (remove_processor t (h, w)))\<rparr>"
  by (simp add: remove_processor_def split: prod.splits)

lemma add_processor_world:
  "snd (add_processor p k (h, w)) = w\<lparr>processors := processors (snd (add_processor p k (h, w)))\<rparr>"
  by (simp add: add_processor_def Let_def)

lemma step_keeps_indexed_typed:
  assumes "indexed w" "typed w"
  shows "indexed (snd (step x (h, w))) \<and> typed (snd (step x (h, w)))"
proof (cases x)
  case Create_Entity
  with assms show ?thesis by (simp add: create_entity_def)
next
  case (Delete_Entity e)
  with assms show ?thesis by (simp add: indexed_delete_entity typed_delete_entity)
next
  case (Add_Component e c)
  with assms show ?thesis by (simp add: indexed_add_component typed_add_component)
next
  case (Delete_Component e T)
  with assms show ?thesis by (simp add: indexed_delete_component typed_delete_component)
next
  case (Get_Components cts)
  with assms show ?thesis by (simp add: indexed_get_components typed_get_components)
next
  case Clear_Database
  then show ?thesis by (simp add: indexed_typed_clear)
next
  case (Add_Processor p k)
  with assms add_processor_world[of p k h w] show ?thesis
    by (metis indexed_processors typed_processors step.simps(9))
next
  case (Remove_Processor t)
  with assms remove_processor_world[of t h w] show ?thesis
    by (metis indexed_processors typed_processors step.simps(10))
qed (use assms in simp_all)

lemma run_keeps_indexed_typed:
  "indexed w \<Longrightarrow> typed w \<Longrightarrow>
   indexed (snd (snd (run ops (h, w)))) \<and> typed (snd (snd (run ops (h, w))))"
proof (induction ops arbitrary: h w)
  case Nil
  then show ?case by simp
next
  case (Cons x xs)
  obtain h' w' where s: "step x (h, w) = (h', w')" by (cases "step x (h, w)")
  with step_keeps_indexed_typed[OF Cons.prems, of x h] have "indexed w'" "typed w'" by simp_all
  from Cons.IH[OF this, of h'] s show ?case by (simp add: snd_run_Cons del: run.simps)
qed

lemma world_after_indexed_typed: "indexed (world_after ops h0) \<and> typed (world_after ops h0)"
  unfolding world_after_def using indexed_typed_World by (simp add: run_keeps_indexed_typed)

section \<open>The multi-component query\<close>

lemma get_components_result:
  assumes i: "indexed w" and cts: "cts = t0 # rest" and keys: "\<forall>T\<in>set cts. components w T \<noteq> None"
  shows "\<exists>I. get_components cts w =
           ((map (\<lambda>e. (e, map (\<lambda>T. the (component_for_entity e T w)) cts)) (sorted_list_of_fset I), None),
            w\<lparr>components := (components w)(t0 \<mapsto> I)\<rparr>)
         \<and> (\<forall>x. x |\<in>| I \<longleftrightarrow> (\<forall>T\<in>set cts. x |\<in>| type_entities w T))"
proof -
  from cts keys obtain s0 where s0: "components w t0 = Some s0" by auto
  from cts keys have "\<forall>T\<in>set rest. components w T \<noteq> None" by simp
  from intersect_loop_ok[OF s0 this] obtain I where
    L: "intersect_loop t0 s0 rest (components w) = (None, I, (components w)(t0 \<mapsto> I))" and
    mem: "\<And>x. x |\<in>| I \<longleftrightarrow> x |\<in>| s0 \<and> (\<forall>T\<in>set rest. x |\<in>| set_at (components w) T)"
    by blast
  have mem': "\<And>x. x |\<in>| I \<longleftrightarrow> (\<forall>T\<in>set cts. x |\<in>| type_entities w T)"
    using mem s0 cts by (simp add: type_entities_set_at)
  have present: "\<forall>e\<in>set (sorted_list_of_fset I).
                   \<exists>d. entities w e = Some d \<and> (\<forall>T\<in>set cts. map_of d T \<noteq> None)"
  proof
    fix e assume "e \<in> set (sorted_list_of_fset I)"
    then have "e |\<in>| I" by simp
    with mem' have all: "\<forall>T\<in>set cts. e |\<in>| type_entities w T" by simp
    with i have c: "\<forall>T\<in>set cts. component_for_entity e T w \<noteq> None"
      by (simp add: indexed_def)
    from cts c have "component_for_entity e t0 w \<noteq> None" by simp
    then obtain d where d: "entities w e = Some d"
      by (cases "entities w e") (simp_all add: component_for_entity_def)
    with c have "\<forall>T\<in>set cts. map_of d T \<noteq> None" by (simp add: component_for_entity_def)
    with d show "\<exists>d. entities w e = Some d \<and> (\<forall>T\<in>set cts. map_of d T \<noteq> None)" by blast
  qed
  have "get_components_loop (entities w) cts (sorted_list_of_fset I) =
          (map (\<lambda>e. (e, map (\<lambda>T. the (map_of (the (entities w e)) T)) cts)) (sorted_list_of_fset I), None)"
    by (rule get_components_loop_ok[OF present])
  also have "map (\<lambda>e. (e, map (\<lambda>T. the (map_of (the (entities w e)) T)) cts)) (sorted_list_of_fset I)
           = map (\<lambda>e. (e, map (\<lambda>T. the (component_for_entity e T w)) cts)) (sorted_list_of_fset I)"
    using present by (auto simp add: component_for_entity_def)
  finally have "get_components cts w =
           ((map (\<lambda>e. (e, map (\<lambda>T. the (component_for_entity e T w)) cts)) (sorted_list_of_fset I), None),
            w\<lparr>components := (components w)(t0 \<mapsto> I)\<rparr>)"
    using cts s0 L by (simp add: get_components_def)
  with mem' show ?thesis by blast
qed

text \<open>
  Claim C1: in every world a sequence of calls can reach from \<open>World()\<close>, for every
  non-empty list of component types that are keys of \<open>_components\<close> (as is every type
  that some entity is stored under), consuming \<open>get_components\<close> raises nothing and yields
  exactly the entities of the intersection of the types' entity sets, none twice, each with
  the list of its components for the requested types in the requested order.
\<close>

theorem get_components_yields_intersection:
  assumes "w = world_after ops h0" and "cts \<noteq> []" and "\<forall>T\<in>set cts. components w T \<noteq> None"
  shows "\<exists>ys w'. get_components cts w = ((ys, None), w')
           \<and> distinct (map fst ys)
           \<and> set (map fst ys) = (\<Inter>T\<in>set cts. fset (type_entities w T))
           \<and> (\<forall>(e, cs)\<in>set ys.
                 list_all2 (\<lambda>T c. component_for_entity e T w = Some c \<and> type_of c = T) cts cs)"
proof -
  from assms(1) have i: "indexed w" and t: "typed w"
    using world_after_indexed_typed[of ops h0] by simp_all
  from assms(2) obtain t0 rest where cts: "cts = t0 # rest" by (cases cts) auto
  define f where "f = (\<lambda>e. (e, map (\<lambda>T. the (component_for_entity e T w)) cts))"
  from get_components_result[OF i cts assms(3)] obtain I where
    res: "get_components cts w =
            ((map f (sorted_list_of_fset I), None), w\<lparr>components := (components w)(t0 \<mapsto> I)\<rparr>)" and
    mem: "\<And>x. x |\<in>| I \<longleftrightarrow> (\<forall>T\<in>set cts. x |\<in>| type_entities w T)"
    unfolding f_def by blast
  let ?ys = "map f (sorted_list_of_fset I)"
  have fst: "map fst ?ys = sorted_list_of_fset I" by (simp add: f_def comp_def)
  have d: "distinct (map fst ?ys)" unfolding fst by (rule distinct_sorted_list_of_fset)
  have s: "set (map fst ?ys) = (\<Inter>T\<in>set cts. fset (type_entities w T))"
    unfolding fst using mem by auto
  have l: "\<forall>(e, cs)\<in>set ?ys.
             list_all2 (\<lambda>T c. component_for_entity e T w = Some c \<and> type_of c = T) cts cs"
  proof (clarify)
    fix e cs assume "(e, cs) \<in> set ?ys"
    then have e: "e |\<in>| I" and cs: "cs = map (\<lambda>T. the (component_for_entity e T w)) cts"
      by (auto simp add: f_def)
    have "\<forall>T\<in>set cts. component_for_entity e T w = Some (the (component_for_entity e T w))
                      \<and> type_of (the (component_for_entity e T w)) = T"
    proof
      fix T assume "T \<in> set cts"
      with e mem have "e |\<in>| type_entities w T" by simp
      with i have "component_for_entity e T w \<noteq> None" by (simp add: indexed_def)
      then obtain c where c: "component_for_entity e T w = Some c" by auto
      with t have "type_of c = T" by (auto simp add: typed_def)
      with c show "component_for_entity e T w = Some (the (component_for_entity e T w))
                      \<and> type_of (the (component_for_entity e T w)) = T" by simp
    qed
    then show "list_all2 (\<lambda>T c. component_for_entity e T w = Some c \<and> type_of c = T) cts cs"
      unfolding cs by (simp add: list_all2_map2 list_all2_same)
  qed
  from res d s l show ?thesis by blast
qed

theorem get_components_yields_intersection_witness:
  "\<exists>ys w'. get_components [0, 1]
       (world_after [Add_Component 1 (Component 0 5), Add_Component 2 (Component 0 6),
                     Add_Component 1 (Component 1 7)] heap0) = ((ys, None), w')
     \<and> distinct (map fst ys) \<and> set (map fst ys) = {1}"
proof -
  let ?w = "world_after [Add_Component 1 (Component 0 5), Add_Component 2 (Component 0 6),
                     Add_Component 1 (Component 1 7)] heap0"
  have k: "\<forall>T\<in>set [0, 1]. components ?w T \<noteq> None" by (simp add: world_ops)
  have "(\<Inter>T\<in>set [0, 1]. fset (type_entities ?w T)) = {1}"
    by (auto simp add: world_ops type_entities_def)
  with get_components_yields_intersection[OF refl _ k] show ?thesis by auto
qed

section \<open>The query writes to the stored sets\<close>



lemma get_components_stored:
  assumes cts: "cts = t0 # rest" and keys: "\<forall>T\<in>set cts. components w T \<noteq> None"
  shows "\<exists>I. snd (get_components cts w) = w\<lparr>components := (components w)(t0 \<mapsto> I)\<rparr>
           \<and> (\<forall>x. x |\<in>| I \<longleftrightarrow> (\<forall>T\<in>set cts. x |\<in>| type_entities w T))"
proof -
  from cts keys obtain s0 where s0: "components w t0 = Some s0" by auto
  from cts keys have "\<forall>T\<in>set rest. components w T \<noteq> None" by simp
  from intersect_loop_ok[OF s0 this] obtain I where
    L: "intersect_loop t0 s0 rest (components w) = (None, I, (components w)(t0 \<mapsto> I))" and
    mem: "\<And>x. x |\<in>| I \<longleftrightarrow> x |\<in>| s0 \<and> (\<forall>T\<in>set rest. x |\<in>| set_at (components w) T)"
    by blast
  have "\<And>x. x |\<in>| I \<longleftrightarrow> (\<forall>T\<in>set cts. x |\<in>| type_entities w T)"
    using mem s0 cts by (simp add: type_entities_set_at)
  moreover have "snd (get_components cts w) = w\<lparr>components := (components w)(t0 \<mapsto> I)\<rparr>"
    using cts s0 L by (simp add: get_components_def)
  ultimately show ?thesis by blast
qed

lemma query_breaks_I1_example:
  "I1 (world_after [Add_Component 1 (Component 0 0), Add_Component 2 (Component 0 0),
                    Add_Component 1 (Component 1 0)] heap0)
   \<and> \<not> I1 (snd (get_components [0, 1]
         (world_after [Add_Component 1 (Component 0 0), Add_Component 2 (Component 0 0),
                       Add_Component 1 (Component 1 0)] heap0)))"
proof
  show "I1 (world_after [Add_Component 1 (Component 0 0), Add_Component 2 (Component 0 0),
                    Add_Component 1 (Component 1 0)] heap0)"
    by (auto simp add: I1_def type_entities_def component_for_entity_def world_ops
          split: if_splits)
next
  let ?w = "snd (get_components [0, 1]
         (world_after [Add_Component 1 (Component 0 0), Add_Component 2 (Component 0 0),
                       Add_Component 1 (Component 1 0)] heap0))"
  have "2 |\<notin>| type_entities ?w 0" by (simp add: type_entities_def world_ops)
  moreover have "component_for_entity 2 0 ?w \<noteq> None"
    by (simp add: component_for_entity_def world_ops)
  ultimately show "\<not> I1 ?w" unfolding I1_def by blast
qed

text \<open>
  Claim C2: consuming \<open>get_components(T1, ..., Tn)\<close> changes the stored state. When the
  requested types are keys of \<open>_components\<close> (so that no \<open>KeyError\<close> ends the query), the
  set stored under the first type \<open>T1\<close> is afterwards the intersection of the requested
  types' sets: every entity that lacks one of the other requested types has been removed
  from it, though no mutating operation was called. Nothing else is written, and the
  narrowed set can break \<open>I1\<close>.
\<close>

theorem get_components_narrows_stored_set:
  assumes "cts = t0 # rest" and "\<forall>T\<in>set cts. components w T \<noteq> None"
  shows "(\<forall>e. e |\<in>| type_entities (snd (get_components cts w)) t0
                \<longleftrightarrow> (\<forall>T\<in>set cts. e |\<in>| type_entities w T))
       \<and> (\<forall>e. e |\<in>| type_entities w t0 \<and> (\<exists>T\<in>set rest. e |\<notin>| type_entities w T)
                \<longrightarrow> e |\<notin>| type_entities (snd (get_components cts w)) t0)
       \<and> (\<forall>T. T \<noteq> t0 \<longrightarrow> components (snd (get_components cts w)) T = components w T)
       \<and> entities (snd (get_components cts w)) = entities w
       \<and> (\<exists>w0 cts0. I1 w0 \<and> \<not> I1 (snd (get_components cts0 w0)))"
proof -
  from get_components_stored[OF assms] obtain I where
    w': "snd (get_components cts w) = w\<lparr>components := (components w)(t0 \<mapsto> I)\<rparr>" and
    mem: "\<And>x. x |\<in>| I \<longleftrightarrow> (\<forall>T\<in>set cts. x |\<in>| type_entities w T)"
    by blast
  have te: "type_entities (snd (get_components cts w)) t0 = I"
    by (simp add: w' type_entities_def)
  have a: "\<forall>e. e |\<in>| type_entities (snd (get_components cts w)) t0
                \<longleftrightarrow> (\<forall>T\<in>set cts. e |\<in>| type_entities w T)"
    unfolding te using mem by simp
  have b: "\<forall>e. e |\<in>| type_entities w t0 \<and> (\<exists>T\<in>set rest. e |\<notin>| type_entities w T)
                \<longrightarrow> e |\<notin>| type_entities (snd (get_components cts w)) t0"
    unfolding te using mem assms(1) by auto
  have c: "\<forall>T. T \<noteq> t0 \<longrightarrow> components (snd (get_components cts w)) T = components w T"
    by (simp add: w')
  have d: "entities (snd (get_components cts w)) = entities w" by (simp add: w')
  from query_breaks_I1_example
  have e: "\<exists>w0 cts0. I1 w0 \<and> \<not> I1 (snd (get_components cts0 w0))" by blast
  from a b c d e show ?thesis by blast
qed

theorem get_components_narrows_stored_set_witness:
  "2 |\<in>| type_entities
       (world_after [Add_Component 1 (Component 0 0), Add_Component 2 (Component 0 0),
                     Add_Component 1 (Component 1 0)] heap0) 0
   \<and> 2 |\<notin>| type_entities
       (world_after [Add_Component 1 (Component 0 0), Add_Component 2 (Component 0 0),
                     Add_Component 1 (Component 1 0)] heap0) 1
   \<and> 2 |\<notin>| type_entities (snd (get_components [0, 1]
       (world_after [Add_Component 1 (Component 0 0), Add_Component 2 (Component 0 0),
                     Add_Component 1 (Component 1 0)] heap0))) 0"
proof -
  let ?w = "world_after [Add_Component 1 (Component 0 0), Add_Component 2 (Component 0 0),
                     Add_Component 1 (Component 1 0)] heap0"
  have k: "\<forall>T\<in>set [0, 1]. components ?w T \<noteq> None" by (simp add: world_ops)
  have m: "2 |\<in>| type_entities ?w 0" "2 |\<notin>| type_entities ?w 1"
    by (simp_all add: world_ops type_entities_def)
  from get_components_narrows_stored_set[OF refl k]
  have "\<forall>e. e |\<in>| type_entities ?w 0 \<and> (\<exists>T\<in>set [1]. e |\<notin>| type_entities ?w T)
                \<longrightarrow> e |\<notin>| type_entities (snd (get_components [0, 1] ?w)) 0"
    by blast
  with m show ?thesis by simp
qed

section \<open>The invariants under the whole interface\<close>

text \<open>
  Claim C4: \<open>I1\<close> holds after every mutating operation, in every reachable world. The code
  breaks it: after three \<open>add_component\<close> calls \<open>I1\<close> holds; consuming
  \<open>get_components(A, B)\<close> removes entity 2 from the set stored under \<open>A\<close>, and after the
  next mutating operation, \<open>create_entity\<close>, entity 2 still has its \<open>A\<close> component in
  \<open>entity_components\<close> but is no member of \<open>type_entities[A]\<close>.
\<close>

theorem I1_lost_after_query:
  "I1 (world_after [Add_Component 1 (Component 0 0), Add_Component 2 (Component 0 0),
                    Add_Component 1 (Component 1 0)] heap0)
   \<and> 2 |\<notin>| type_entities
        (world_after [Add_Component 1 (Component 0 0), Add_Component 2 (Component 0 0),
                      Add_Component 1 (Component 1 0), Get_Components [0, 1], Create_Entity] heap0) 0
   \<and> component_for_entity 2 0
        (world_after [Add_Component 1 (Component 0 0), Add_Component 2 (Component 0 0),
                      Add_Component 1 (Component 1 0), Get_Components [0, 1], Create_Entity] heap0)
        = Some (Component 0 0)
   \<and> \<not> I1 (world_after [Add_Component 1 (Component 0 0), Add_Component 2 (Component 0 0),
                    Add_Component 1 (Component 1 0), Get_Components [0, 1], Create_Entity] heap0)"
proof -
  let ?w = "world_after [Add_Component 1 (Component 0 0), Add_Component 2 (Component 0 0),
                    Add_Component 1 (Component 1 0), Get_Components [0, 1], Create_Entity] heap0"
  have a: "I1 (world_after [Add_Component 1 (Component 0 0), Add_Component 2 (Component 0 0),
                    Add_Component 1 (Component 1 0)] heap0)"
    by (auto simp add: I1_def type_entities_def component_for_entity_def world_ops
          split: if_splits)
  have b: "2 |\<notin>| type_entities ?w 0" by (simp add: type_entities_def world_ops)
  have c: "component_for_entity 2 0 ?w = Some (Component 0 0)"
    by (simp add: component_for_entity_def world_ops)
  have "\<not> I1 ?w"
  proof
    assume "I1 ?w"
    then have "2 |\<in>| type_entities ?w 0 \<longleftrightarrow> component_for_entity 2 0 ?w \<noteq> None"
      unfolding I1_def by blast
    with b c show False by simp
  qed
  with a b c show ?thesis by blast
qed

text \<open>
  Claim C9: \<open>I2\<close> holds after every mutating operation: no key of \<open>type_entities\<close> maps to
  an empty set, no key of \<open>entity_components\<close> to an empty dictionary. The code breaks the
  first half: consuming \<open>get_components(A, B)\<close> on a world where no entity holds both
  leaves the empty set stored under \<open>A\<close>, and it is still there after the next mutating
  operation.
\<close>

theorem I2_lost_after_query:
  "I2 (world_after [Add_Component 1 (Component 0 0), Add_Component 2 (Component 1 0)] heap0)
   \<and> components (world_after [Add_Component 1 (Component 0 0), Add_Component 2 (Component 1 0),
                    Get_Components [0, 1], Create_Entity] heap0) 0 = Some {||}
   \<and> \<not> I2 (world_after [Add_Component 1 (Component 0 0), Add_Component 2 (Component 1 0),
                    Get_Components [0, 1], Create_Entity] heap0)"
proof -
  let ?w = "world_after [Add_Component 1 (Component 0 0), Add_Component 2 (Component 1 0),
                    Get_Components [0, 1], Create_Entity] heap0"
  have a: "I2 (world_after [Add_Component 1 (Component 0 0), Add_Component 2 (Component 1 0)] heap0)"
    by (simp add: I2_def world_ops)
  have b: "components ?w 0 = Some {||}" by (simp add: world_ops)
  then have "\<not> I2 ?w" unfolding I2_def by blast
  with a b show ?thesis by blast
qed

text \<open>
  The defect is confined to \<open>get_components\<close>: every other call keeps \<open>I1\<close> and \<open>I2\<close>, and
  on a consistent world \<open>delete_entity\<close> raises nothing.
\<close>


lemma delete_entity_loop_distinct:
  "distinct keys \<Longrightarrow> \<forall>T\<in>set keys. e |\<in>| set_at comps T \<Longrightarrow>
   \<exists>comps'. delete_entity_loop e keys comps = (None, comps')
     \<and> (\<forall>T. T \<notin> set keys \<longrightarrow> comps' T = comps T)
     \<and> (\<forall>T\<in>set keys. set_at comps' T = set_at comps T |-| {|e|} \<and> comps' T \<noteq> Some {||})"
proof (induction keys arbitrary: comps)
  case Nil
  then show ?case by simp
next
  case (Cons ct cts)
  from Cons.prems have "e |\<in>| set_at comps ct" by simp
  then obtain s where s: "comps ct = Some s" by (cases "comps ct") (simp_all add: set_at_def)
  define c1 where "c1 = (if s |-| {|e|} = {||} then comps(ct := None) else comps(ct \<mapsto> s |-| {|e|}))"
  have step: "delete_entity_loop e (ct # cts) comps = delete_entity_loop e cts c1"
    using s by (simp add: c1_def Let_def)
  have c1_other: "\<And>T. T \<noteq> ct \<Longrightarrow> c1 T = comps T" by (simp add: c1_def)
  have c1_ct: "set_at c1 ct = s |-| {|e|}" "c1 ct \<noteq> Some {||}" by (auto simp add: c1_def)
  from Cons.prems have ct: "ct \<notin> set cts" and d: "distinct cts" by simp_all
  have "\<forall>T\<in>set cts. e |\<in>| set_at c1 T"
  proof
    fix T assume T: "T \<in> set cts"
    with ct have "T \<noteq> ct" by auto
    then have "set_at c1 T = set_at comps T" by (simp add: set_at_def c1_other)
    with Cons.prems T show "e |\<in>| set_at c1 T" by simp
  qed
  from Cons.IH[OF d this] obtain comps' where
    L: "delete_entity_loop e cts c1 = (None, comps')" and
    o: "\<And>T. T \<notin> set cts \<Longrightarrow> comps' T = c1 T" and
    k: "\<And>T. T \<in> set cts \<Longrightarrow> set_at comps' T = set_at c1 T |-| {|e|} \<and> comps' T \<noteq> Some {||}"
    by blast
  have a: "\<forall>T. T \<notin> set (ct # cts) \<longrightarrow> comps' T = comps T" using o c1_other by simp
  have b: "\<forall>T\<in>set (ct # cts). set_at comps' T = set_at comps T |-| {|e|} \<and> comps' T \<noteq> Some {||}"
  proof
    fix T assume "T \<in> set (ct # cts)"
    then consider "T = ct" | "T \<in> set cts" "T \<noteq> ct" using ct by auto
    then show "set_at comps' T = set_at comps T |-| {|e|} \<and> comps' T \<noteq> Some {||}"
    proof cases
      case 1
      with o[OF ct] c1_ct s show ?thesis by (simp add: set_at_def)
    next
      case 2
      with k[of T] c1_other[of T] show ?thesis by (simp add: set_at_def)
    qed
  qed
  from step L a b show ?case by simp
qed

lemma I1_add_component: "I1 w \<Longrightarrow> I1 (add_component e c w)"
  by (auto simp add: I1_def cfe_add_component te_add_component)

lemma I1_delete_component: "I1 w \<Longrightarrow> I1 (delete_component e T w)"
  by (auto simp add: I1_def cfe_delete_component te_delete_component)

lemma update_not_Nil: "AList.update k v al \<noteq> []"
  by (cases al) auto

lemma I2_add_component: "I2 w \<Longrightarrow> I2 (add_component e c w)"
  by (auto simp add: I2_def add_component_def Let_def update_not_Nil)

lemma I2_delete_component: "I2 w \<Longrightarrow> I2 (delete_component e T w)"
  by (auto simp add: I2_def delete_component_def Let_def split: option.splits if_splits)

lemma keys_distinct_add_component: "keys_distinct w \<Longrightarrow> keys_distinct (add_component e c w)"
  by (auto simp add: keys_distinct_def add_component_def Let_def distinct_update
      split: option.splits if_splits)

lemma keys_distinct_delete_component:
  "keys_distinct w \<Longrightarrow> keys_distinct (delete_component e T w)"
  by (auto simp add: keys_distinct_def delete_component_def Let_def distinct_delete
      split: option.splits if_splits)

lemma consistent_delete_entity:
  assumes "consistent w"
  shows "fst (delete_entity e w) = Inr () \<and> consistent (snd (delete_entity e w))"
proof (cases "entities w e")
  case None
  then have "delete_entity e w = (Inr (), w)" by (simp add: delete_entity_def)
  with assms show ?thesis by simp
next
  case (Some d)
  from assms have i1: "I1 w" and i2: "I2 w" and kd: "keys_distinct w"
    by (simp_all add: consistent_def)
  from kd Some have dist: "distinct (map fst d)" by (auto simp add: keys_distinct_def)
  have cfe: "\<And>T. component_for_entity e T w \<noteq> None \<longleftrightarrow> T \<in> set (map fst d)"
    using Some by (simp add: component_for_entity_def map_of_eq_None_iff)
  have "\<forall>T\<in>set (map fst d). e |\<in>| set_at (components w) T"
    using i1 cfe by (simp add: I1_def type_entities_set_at)
  from delete_entity_loop_distinct[OF dist this] obtain comps' where
    L: "delete_entity_loop e (map fst d) (components w) = (None, comps')" and
    o: "\<And>T. T \<notin> set (map fst d) \<Longrightarrow> comps' T = components w T" and
    k: "\<And>T. T \<in> set (map fst d) \<Longrightarrow>
          set_at comps' T = set_at (components w) T |-| {|e|} \<and> comps' T \<noteq> Some {||}"
    by blast
  let ?w' = "w\<lparr>components := comps', entities := (entities w)(e := None)\<rparr>"
  from Some L have res: "delete_entity e w = (Inr (), ?w')" by (simp add: delete_entity_def)
  have te: "\<And>T. type_entities ?w' T = type_entities w T |-| {|e|}"
  proof -
    fix T show "type_entities ?w' T = type_entities w T |-| {|e|}"
    proof (cases "T \<in> set (map fst d)")
      case True
      with k show ?thesis by (simp add: type_entities_set_at)
    next
      case False
      with cfe have "component_for_entity e T w = None" by blast
      with i1 have "e |\<notin>| type_entities w T" by (simp add: I1_def)
      with o[OF False] show ?thesis by (simp add: type_entities_def)
    qed
  qed
  have ce: "\<And>e' T. component_for_entity e' T ?w' =
              (if e' = e then None else component_for_entity e' T w)"
    by (simp add: component_for_entity_def)
  have "I1 ?w'" using i1 unfolding I1_def te ce by auto
  moreover have "I2 ?w'"
  proof -
    have "\<And>T. comps' T \<noteq> Some {||}"
    proof -
      fix T show "comps' T \<noteq> Some {||}"
        using k[of T] o[of T] i2 by (cases "T \<in> set (map fst d)") (auto simp add: I2_def)
    qed
    with i2 show ?thesis by (simp add: I2_def)
  qed
  moreover have "keys_distinct ?w'" using kd by (simp add: keys_distinct_def)
  ultimately show ?thesis using res by (simp add: consistent_def)
qed

lemma consistent_fields:
  "components w' = components w \<Longrightarrow> entities w' = entities w \<Longrightarrow> consistent w' = consistent w"
  by (simp add: consistent_def I1_def I2_def keys_distinct_def type_entities_def
      component_for_entity_def)

lemma consistent_World: "consistent World"
  by (simp add: consistent_def I1_def I2_def keys_distinct_def type_entities_def
      component_for_entity_def World_def)

lemma consistent_clear_database: "consistent (clear_database w)"
  by (simp add: consistent_def I1_def I2_def keys_distinct_def type_entities_def
      component_for_entity_def clear_database_def)

lemma step_keeps_consistent:
  assumes "consistent w" and "\<not> narrowing x"
  shows "consistent (snd (step x (h, w)))"
proof (cases x)
  case Create_Entity
  have "consistent (snd (create_entity w)) = consistent w"
    by (rule consistent_fields) (simp_all add: create_entity_def)
  with assms Create_Entity show ?thesis by simp
next
  case (Delete_Entity e)
  with consistent_delete_entity[OF assms(1), of e] show ?thesis by simp
next
  case (Add_Component e c)
  with assms show ?thesis
    by (simp add: consistent_def I1_add_component I2_add_component keys_distinct_add_component)
next
  case (Delete_Component e T)
  with assms show ?thesis
    by (simp add: consistent_def I1_delete_component I2_delete_component
        keys_distinct_delete_component)
next
  case (Get_Components cts)
  with assms show ?thesis by simp
next
  case Clear_Database
  then show ?thesis by (simp add: consistent_clear_database)
next
  case (Add_Processor p k)
  have "consistent (snd (add_processor p k (h, w))) = consistent w"
    by (rule consistent_fields) (simp_all add: add_processor_def Let_def)
  with assms Add_Processor show ?thesis by simp
next
  case (Remove_Processor t)
  have "consistent (snd (remove_processor t (h, w))) = consistent w"
    by (rule consistent_fields) (simp_all add: remove_processor_def split: prod.splits)
  with assms Remove_Processor show ?thesis by simp
qed (use assms in simp_all)

lemma run_keeps_consistent:
  "consistent w \<Longrightarrow> \<forall>x\<in>set ops. \<not> narrowing x \<Longrightarrow> consistent (snd (snd (run ops (h, w))))"
proof (induction ops arbitrary: h w)
  case Nil
  then show ?case by simp
next
  case (Cons x xs)
  obtain h' w' where s: "step x (h, w) = (h', w')" by (cases "step x (h, w)")
  from Cons.prems have "\<not> narrowing x" and xs: "\<forall>x\<in>set xs. \<not> narrowing x" by simp_all
  with step_keeps_consistent[OF Cons.prems(1), of x h] s have "consistent w'" by simp
  from Cons.IH[OF this xs, of h'] s show ?case by (simp add: snd_run_Cons del: run.simps)
qed

lemma I1_I2_without_get_components:
  "\<forall>x\<in>set ops. \<not> narrowing x \<Longrightarrow> I1 (world_after ops h0) \<and> I2 (world_after ops h0)"
  using run_keeps_consistent[OF consistent_World, of ops h0]
  by (simp add: world_after_def consistent_def)

section \<open>The order of the processors\<close>

lemma add_processors_snoc:
  "add_processors (calls @ [(p, k)]) hw = add_processor p k (add_processors calls hw)"
  by (simp add: add_processors_def)

lemma add_processors_invariant:
  "distinct (map fst calls) \<Longrightarrow> processors w0 = [] \<Longrightarrow> add_processors calls (h0, w0) = (h, w) \<Longrightarrow>
   sorted (map (\<lambda>q. - priority (h q)) (processors w))
   \<and> (\<forall>k. filter (\<lambda>q. priority (h q) = k) (processors w)
           = map fst (filter (\<lambda>(p, prio). prio = k) calls))
   \<and> distinct (processors w)
   \<and> set (processors w) = fst ` set calls
   \<and> (\<forall>(p, prio)\<in>set calls. priority (h p) = prio)"
proof (induction calls arbitrary: h w rule: rev_induct)
  case Nil
  then show ?case by (simp add: add_processors_def)
next
  case (snoc call calls)
  obtain p k where call: "call = (p, k)" by (cases call)
  obtain h1 w1 where s1: "add_processors calls (h0, w0) = (h1, w1)"
    by (cases "add_processors calls (h0, w0)")
  from snoc.prems(1) call have d: "distinct (map fst calls)" and fresh: "p \<notin> fst ` set calls"
    by simp_all
  from snoc.IH[OF d snoc.prems(2) s1] have
    ih_filter: "\<And>k. filter (\<lambda>q. priority (h1 q) = k) (processors w1)
                   = map fst (filter (\<lambda>(p, prio). prio = k) calls)" and
    ih_distinct: "distinct (processors w1)" and
    ih_set: "set (processors w1) = fst ` set calls" and
    ih_prio: "\<forall>(p, prio)\<in>set calls. priority (h1 p) = prio"
    by auto
  define f where "f = (\<lambda>q. - priority (h q))"
  from snoc.prems(3) call s1
  have h: "h = h1(p := (h1 p)\<lparr>priority := k, pworld := Some This_World\<rparr>)"
    and ps: "processors w = sort_key f (processors w1 @ [p])"
    by (auto simp add: add_processors_snoc add_processor_def Let_def f_def)
  have old: "\<And>q. q \<in> set (processors w1) \<Longrightarrow> priority (h q) = priority (h1 q)"
    using fresh ih_set h by auto
  have new: "priority (h p) = k" using h by simp
  have a: "sorted (map (\<lambda>q. - priority (h q)) (processors w))"
    unfolding ps f_def[symmetric] by simp
  have b: "\<forall>k'. filter (\<lambda>q. priority (h q) = k') (processors w)
               = map fst (filter (\<lambda>(p, prio). prio = k') (calls @ [call]))"
  proof
    fix k'
    have "filter (\<lambda>q. priority (h q) = k') (processors w)
            = filter (\<lambda>q. f q = - k') (sort_key f (processors w1 @ [p]))"
      by (simp add: ps f_def)
    also have "\<dots> = filter (\<lambda>q. f q = - k') (processors w1 @ [p])"
      by (rule sort_key_stable)
    also have "\<dots> = filter (\<lambda>q. priority (h q) = k') (processors w1)
                      @ (if k = k' then [p] else [])"
      using new by (simp add: f_def)
    also have "filter (\<lambda>q. priority (h q) = k') (processors w1)
                 = filter (\<lambda>q. priority (h1 q) = k') (processors w1)"
      using old by (intro filter_cong) simp_all
    also have "\<dots> = map fst (filter (\<lambda>(p, prio). prio = k') calls)" by (rule ih_filter)
    finally show "filter (\<lambda>q. priority (h q) = k') (processors w)
               = map fst (filter (\<lambda>(p, prio). prio = k') (calls @ [call]))"
      by (simp add: call)
  qed
  have c: "distinct (processors w)" using ih_distinct ih_set fresh by (simp add: ps)
  have e: "set (processors w) = fst ` set (calls @ [call])" using ih_set by (auto simp add: ps call)
  have g: "\<forall>(q, prio)\<in>set (calls @ [call]). priority (h q) = prio"
  proof (clarify)
    fix q prio assume "(q, prio) \<in> set (calls @ [call])"
    then consider "(q, prio) \<in> set calls" | "q = p" "prio = k" by (auto simp add: call)
    then show "priority (h q) = prio"
    proof cases
      case 1
      then have "q \<in> fst ` set calls" by (rule rev_image_eqI) simp
      with fresh have "q \<noteq> p" by auto
      with 1 ih_prio h show ?thesis by auto
    next
      case 2
      with new show ?thesis by simp
    qed
  qed
  from a b c e g show ?case by blast
qed

theorem readded_processor_breaks_tie_order:
  "process (add_processors [(0, 1), (1, 2), (0, 2)] (heap0, World)) = [1, 0, 0]
   \<and> priority (fst (add_processors [(0, 1), (1, 2), (0, 2)] (heap0, World)) 0) = 2
   \<and> priority (fst (add_processors [(0, 1), (1, 2), (0, 2)] (heap0, World)) 1) = 2"
  by (simp add: add_processors_def add_processor_def process_def heap0_def World_def Let_def)

text \<open>
  Claim C8, amended: after any sequence of \<open>add_processor\<close> calls on pairwise distinct
  processor instances, starting from a new world, the processor list is sorted by
  descending priority, processors of equal priority are in the order of their insertion,
  every added processor is in the list once, and \<open>process\<close> calls them once each in the
  order of the list.
\<close>

theorem processors_sorted_stable:
  assumes "distinct (map fst calls)" and "add_processors calls (h0, World) = (h, w)"
  shows "sorted_wrt (\<lambda>p q. priority (h p) \<ge> priority (h q)) (processors w)
       \<and> (\<forall>k. filter (\<lambda>q. priority (h q) = k) (processors w)
               = map fst (filter (\<lambda>(p, prio). prio = k) calls))
       \<and> process (h, w) = processors w
       \<and> distinct (processors w)
       \<and> set (processors w) = fst ` set calls
       \<and> (\<forall>(p, prio)\<in>set calls. priority (h p) = prio)"
proof -
  have "processors World = []" by (simp add: World_def)
  from add_processors_invariant[OF assms(1) this assms(2)]
  show ?thesis by (simp add: sorted_map process_def)
qed

theorem processors_sorted_stable_witness:
  "process (add_processors [(0, 5), (1, 5)] (heap0, World)) = [0, 1]
   \<and> process (add_processors [(0, 1), (1, 7), (2, 1)] (heap0, World)) = [1, 0, 2]"
proof -
  have d: "distinct (map fst [(0::nat, 5::int), (1, 5)])" by simp
  have "process (fst (add_processors [(0, 5), (1, 5)] (heap0, World)),
                 snd (add_processors [(0, 5), (1, 5)] (heap0, World)))
          = processors (snd (add_processors [(0, 5), (1, 5)] (heap0, World)))"
    using processors_sorted_stable[OF d, of heap0
        "fst (add_processors [(0, 5), (1, 5)] (heap0, World))"
        "snd (add_processors [(0, 5), (1, 5)] (heap0, World))"]
    by simp
  then show ?thesis
    by (simp add: add_processors_def add_processor_def process_def heap0_def World_def Let_def)
qed

end
